theory Spec2Isabelle
  imports Complex_Main
begin

section \<open>The OSC light controller of \<^verbatim>\<open>testbulb.py\<close>\<close>

text \<open>
  The development embeds class \<^verbatim>\<open>OSCLightController\<close>. Durations and clock readings
  (\<^verbatim>\<open>time.perf_counter()\<close>, Python floats) are real numbers, so rounding is not part of the
  model. Every method invocation is one atomic step: the handler threads of the OSC
  server, the command thread and the dispatcher coroutine are interleaved at the
  granularity of whole method calls (one loop iteration for the dispatcher).
\<close>

subsection \<open>Values, events and the bounded queue\<close>

text \<open>The argument values an OSC message can carry.\<close>

datatype osc_value =
    OscStr string
  | OscInt int
  | OscFloat real
  | OscBool bool
  | OscNil

text \<open>Python truthiness, as tested by \<^verbatim>\<open>if not sound\<close>.\<close>

fun truthy :: "osc_value \<Rightarrow> bool" where
  "truthy (OscStr s) = (s \<noteq> [])"
| "truthy (OscInt n) = (n \<noteq> 0)"
| "truthy (OscFloat x) = (x \<noteq> 0)"
| "truthy (OscBool b) = b"
| "truthy OscNil = False"

record event =
  sound :: osc_value
  receive_time :: real
  event_id :: nat

datatype py_error = Full | Empty | StatisticsError

text \<open>
  \<^verbatim>\<open>queue.Queue(maxsize)\<close>: a FIFO whose \<^verbatim>\<open>put(block=False)\<close> raises \<^verbatim>\<open>Full\<close> when
  \<^verbatim>\<open>maxsize > 0\<close> and the size has reached it (a \<^verbatim>\<open>maxsize\<close> of zero or less means no
  bound), and whose \<^verbatim>\<open>get_nowait()\<close> raises \<^verbatim>\<open>Empty\<close> on an empty queue.
\<close>

record py_queue =
  maxsize :: int
  items :: "event list"

definition Queue :: "int \<Rightarrow> py_queue" where
  "Queue m = \<lparr>maxsize = m, items = []\<rparr>"

definition qsize :: "py_queue \<Rightarrow> nat" where
  "qsize q = length (items q)"

definition full :: "py_queue \<Rightarrow> bool" where
  "full q = (0 < maxsize q \<and> maxsize q \<le> int (qsize q))"

definition put_nowait :: "py_queue \<Rightarrow> event \<Rightarrow> py_error + py_queue" where
  "put_nowait q e =
     (if full q then Inl Full
      else Inr (q\<lparr>items := items q @ [e]\<rparr>))"

definition get_nowait :: "py_queue \<Rightarrow> py_error + event \<times> py_queue" where
  "get_nowait q =
     (case items q of
        [] \<Rightarrow> Inl Empty
      | e # rest \<Rightarrow> Inr (e, q\<lparr>items := rest\<rparr>))"

text \<open>
  \<^verbatim>\<open>get(timeout=...)\<close> returns the head as soon as there is one and raises \<^verbatim>\<open>Empty\<close> when
  the timeout passes on an empty queue; how long the call took is an input of the caller's
  model.
\<close>

definition get_timeout :: "py_queue \<Rightarrow> py_error + event \<times> py_queue" where
  "get_timeout q = get_nowait q"

subsection \<open>The controller object\<close>

text \<open>
  The \<^verbatim>\<open>stats\<close> dictionary. Its counter \<^verbatim>\<open>'total'\<close> is the field \<open>total_count\<close>. The two
  deques are lists with the newest element last.
\<close>

record stats_dict =
  total_count :: nat
  measured_latencies :: "real list"
  queue_sizes :: "nat list"
  early_count :: nat
  late_count :: nat

text \<open>\<^verbatim>\<open>deque(maxlen=n).append(x)\<close>: elements fall off the left end beyond \<open>n\<close>.\<close>

definition deque_append :: "nat \<Rightarrow> 'a list \<Rightarrow> 'a \<Rightarrow> 'a list" where
  "deque_append maxlen xs x = drop (length xs + 1 - maxlen) (xs @ [x])"

record controller =
  bulb_ip :: string
  pulse_duration :: real
  max_queue_size :: int
  target_latency :: real
  bulb :: "string option"
  event_queue :: py_queue
  scheduled_events :: "(real \<times> event) list"
  running :: bool
  system_overhead :: real
  bulb_response_time :: real
  osc_receive_delay :: real
  intentional_delay :: real
  stats :: stats_dict

text \<open>The constructor \<^verbatim>\<open>__init__\<close> (its three informational prints are left out).\<close>

definition init_controller :: "string \<Rightarrow> real \<Rightarrow> int \<Rightarrow> real \<Rightarrow> controller" where
  "init_controller ip pulse max_q target =
     \<lparr>bulb_ip = ip,
      pulse_duration = pulse,
      max_queue_size = max_q,
      target_latency = target,
      bulb = None,
      event_queue = Queue max_q,
      scheduled_events = [],
      running = True,
      system_overhead = 50 / 1000,
      bulb_response_time = 100 / 1000,
      osc_receive_delay = 10 / 1000,
      intentional_delay = max (1 / 1000) (target - 50 / 1000 - 100 / 1000),
      stats = \<lparr>total_count = 0, measured_latencies = [], queue_sizes = [],
               early_count = 0, late_count = 0\<rparr>\<rparr>"

subsection \<open>Ingest: \<^verbatim>\<open>osc_handler\<close>\<close>

text \<open>
  The loop \<^verbatim>\<open>for i in range(0, len(args), 2)\<close> stores \<^verbatim>\<open>args[i] \<mapsto> args[i+1]\<close> for every
  complete pair; a trailing key without a value is skipped.
\<close>

fun parse_args :: "osc_value list \<Rightarrow> (osc_value \<rightharpoonup> osc_value) \<Rightarrow> (osc_value \<rightharpoonup> osc_value)" where
  "parse_args (k # v # rest) d = parse_args rest (d(k \<mapsto> v))"
| "parse_args _ d = d"

text \<open>
  The handler gets the clock reading taken on entry as \<open>receive_time\<close> (the OSC address,
  its first parameter, is not used). The event is
  numbered with the old counter, the counter is incremented, then the event is put; when
  the put raises \<^verbatim>\<open>Full\<close> the handler removes the head and puts again, and anything raised
  by these two calls is swallowed.
\<close>

definition osc_handler :: "controller \<Rightarrow> real \<Rightarrow> osc_value list \<Rightarrow> controller" where
  "osc_handler c rt args =
     (let args_dict = parse_args args Map.empty in
      case args_dict (OscStr ''s'') of
        None \<Rightarrow> c
      | Some snd_v \<Rightarrow>
          if \<not> truthy snd_v then c
          else
            (let ev = \<lparr>sound = snd_v, receive_time = rt,
                       event_id = total_count (stats c)\<rparr>;
                 c1 = c\<lparr>stats := (stats c)\<lparr>total_count := total_count (stats c) + 1\<rparr>\<rparr>
             in case put_nowait (event_queue c1) ev of
                  Inr q \<Rightarrow> c1\<lparr>event_queue := q\<rparr>
                | Inl _ \<Rightarrow>
                    (case get_nowait (event_queue c1) of
                       Inl _ \<Rightarrow> c1
                     | Inr (old, q1) \<Rightarrow>
                         (case put_nowait q1 ev of
                            Inl _ \<Rightarrow> c1\<lparr>event_queue := q1\<rparr>
                          | Inr q2 \<Rightarrow> c1\<lparr>event_queue := q2\<rparr>))))"

subsection \<open>Console output\<close>

record stats_line =
  avg_ms :: real
  std_ms :: real
  target_ms :: real
  error_ms :: real
  early_pct :: real
  late_pct :: real
  queue_len :: nat

text \<open>What the methods print, with the numbers before formatting.\<close>

datatype message =
    NeedMoreData
  | AutoCalibration real real real real
  | DelayChange real real real
  | LatencyError real real
  | Stats stats_line
  | ProcessorError py_error
  | CommandError py_error

subsection \<open>Statistics\<close>

text \<open>\<^verbatim>\<open>statistics.mean\<close> and \<^verbatim>\<open>statistics.stdev\<close> raise on too little data.\<close>

definition mean :: "real list \<Rightarrow> py_error + real" where
  "mean xs = (if xs = [] then Inl StatisticsError
              else Inr (sum_list xs / real (length xs)))"

definition stdev :: "real list \<Rightarrow> py_error + real" where
  "stdev xs =
     (if length xs < 2 then Inl StatisticsError
      else let m = sum_list xs / real (length xs)
           in Inr (sqrt (sum_list (map (\<lambda>x. (x - m)\<^sup>2) xs) / real (length xs - 1))))"

definition print_stats :: "controller \<Rightarrow> py_error + message list" where
  "print_stats c =
     (if measured_latencies (stats c) = [] then Inr []
      else
        let latencies = measured_latencies (stats c) in
        case mean latencies of
          Inl e \<Rightarrow> Inl e
        | Inr avg \<Rightarrow>
            (case (if 1 < length latencies then stdev latencies else Inr 0) of
               Inl e \<Rightarrow> Inl e
             | Inr sd \<Rightarrow>
                 (let avg_ms = avg * 1000;
                      std_ms = sd * 1000;
                      total = max 1 (total_count (stats c));
                      early_pct = (real (early_count (stats c)) / real total) * 100;
                      late_pct = (real (late_count (stats c)) / real total) * 100
                  in Inr [Stats \<lparr>avg_ms = avg_ms, std_ms = std_ms,
                                  target_ms = target_latency c * 1000,
                                  error_ms = avg_ms - target_latency c * 1000,
                                  early_pct = early_pct, late_pct = late_pct,
                                  queue_len = qsize (event_queue c)\<rparr>])))"

subsection \<open>Calibration: \<^verbatim>\<open>update_delay\<close> and \<^verbatim>\<open>calibrate_automatically\<close>\<close>

definition update_delay :: "controller \<Rightarrow> real \<Rightarrow> controller \<times> message list" where
  "update_delay c adjustment_ms =
     (let old_delay = intentional_delay c;
          adjustment = adjustment_ms / 1000;
          c1 = c\<lparr>intentional_delay := intentional_delay c + adjustment\<rparr>;
          c2 = c1\<lparr>intentional_delay := max (1 / 1000) (min 1 (intentional_delay c1))\<rparr>
      in (c2, [DelayChange old_delay (intentional_delay c2) adjustment_ms]))"

definition calibrate_automatically :: "controller \<Rightarrow> py_error + controller \<times> message list" where
  "calibrate_automatically c =
     (if length (measured_latencies (stats c)) < 10 then Inr (c, [NeedMoreData])
      else
        case mean (measured_latencies (stats c)) of
          Inl e \<Rightarrow> Inl e
        | Inr avg_measured \<Rightarrow>
            (let error = avg_measured - target_latency c;
                 adjustment_ms = - error * 1000;
                 (c1, out) = update_delay c adjustment_ms;
                 c2 = c1\<lparr>stats := (stats c1)\<lparr>measured_latencies := [],
                                              early_count := 0, late_count := 0\<rparr>\<rparr>
             in Inr (c2, AutoCalibration avg_measured (target_latency c) error adjustment_ms
                          # out)))"

subsection \<open>The dispatcher: one pass of the loop of \<^verbatim>\<open>process_events_with_delay\<close>\<close>

text \<open>
  \<^verbatim>\<open>execute_light\<close> connects the bulb if there is none yet, then switches it on, holds and
  switches it off; every exception of the device is caught inside. Of the controller it
  changes the field \<open>bulb\<close> only.
\<close>

definition execute_light :: "controller \<Rightarrow> osc_value \<Rightarrow> controller" where
  "execute_light c sound_name =
     (case bulb c of None \<Rightarrow> c\<lparr>bulb := Some (bulb_ip c)\<rparr> | Some b \<Rightarrow> c)"

text \<open>
  What one pass of the loop takes from its environment: \<open>loop_top\<close> is the clock reading
  \<^verbatim>\<open>current_time\<close> at the top of the pass, \<open>get_elapsed\<close> the time from that reading until
  the queue's \<^verbatim>\<open>get\<close> has returned, \<open>sleep_overrun\<close> the time by which a sleep lasts longer
  than requested, \<open>light_elapsed\<close> the time \<^verbatim>\<open>execute_light\<close> takes.
\<close>

record iter_env =
  loop_top :: real
  get_elapsed :: real
  sleep_overrun :: real
  light_elapsed :: real

text \<open>
  The observable effects of a pass: a sleep with the requested duration, the actuation of
  an event with the times at which \<^verbatim>\<open>execute_light\<close> was entered and left, a printed line.
\<close>

datatype effect =
    Slept real
  | Light event real real
  | Printed message

text \<open>
  The local variables of a pass that dequeued \<open>ev\<close>: \<^verbatim>\<open>execute_time\<close>, \<^verbatim>\<open>wait_time\<close> (the
  difference to \<^verbatim>\<open>current_time\<close>, the reading from the top of the pass) and
  \<^verbatim>\<open>actual_execute_time\<close>, the reading taken after the optional sleep and before
  \<^verbatim>\<open>execute_light\<close>. Between the two readings the time of the \<^verbatim>\<open>get\<close> passes and, when
  the pass sleeps, the requested wait and its overrun.
\<close>

definition execute_time :: "controller \<Rightarrow> event \<Rightarrow> real" where
  "execute_time c ev = receive_time ev + intentional_delay c"

definition wait_time :: "iter_env \<Rightarrow> controller \<Rightarrow> event \<Rightarrow> real" where
  "wait_time env c ev = execute_time c ev - loop_top env"

definition actual_execute_time :: "iter_env \<Rightarrow> controller \<Rightarrow> event \<Rightarrow> real" where
  "actual_execute_time env c ev =
     (if wait_time env c ev > 0
      then loop_top env + get_elapsed env + wait_time env c ev + sleep_overrun env
      else loop_top env + get_elapsed env)"

definition process_events_step :: "iter_env \<Rightarrow> controller \<Rightarrow> controller \<times> effect list" where
  "process_events_step env c =
     (case get_timeout (event_queue c) of
        Inl _ \<Rightarrow> (c, [Slept (5 / 1000)])
      | Inr (ev, q) \<Rightarrow>
          (let c1 = c\<lparr>event_queue := q\<rparr>;
               sleeping = (if wait_time env c1 ev > 0 then [Slept (wait_time env c1 ev)] else []);
               t_start = actual_execute_time env c1 ev;
               c2 = execute_light c1 (sound ev);
               t_done = t_start + light_elapsed env;
               actual_latency = t_start - receive_time ev;
               c3 = c2\<lparr>stats := (stats c2)\<lparr>measured_latencies :=
                       deque_append 1000 (measured_latencies (stats c2)) actual_latency\<rparr>\<rparr>;
               latency_error = actual_latency - target_latency c3;
               c4 = (if latency_error < - (5 / 1000)
                     then c3\<lparr>stats := (stats c3)\<lparr>early_count := early_count (stats c3) + 1\<rparr>\<rparr>
                     else if latency_error > 5 / 1000
                     then c3\<lparr>stats := (stats c3)\<lparr>late_count := late_count (stats c3) + 1\<rparr>\<rparr>
                     else c3);
               logged = (if \<bar>latency_error\<bar> > 20 / 1000
                         then [Printed (LatencyError latency_error actual_latency)] else []);
               periodic =
                 (if total_count (stats c4) mod 50 = 0
                  then (case print_stats c4 of
                          Inr ms \<Rightarrow> map Printed ms
                        | Inl e \<Rightarrow> [Printed (ProcessorError e), Slept (10 / 1000)])
                  else [])
           in (c4, sleeping @ [Light ev t_start t_done] @ logged @ periodic)))"

subsection \<open>Runs of the whole controller\<close>

text \<open>
  A run interleaves handler invocations (with the clock reading taken on entry and the
  message's arguments), passes of the dispatcher loop and the operator's commands
  \<^verbatim>\<open>update_delay\<close> and \<^verbatim>\<open>calibrate_automatically\<close>.
\<close>

datatype step =
    Submit real "osc_value list"
  | Iterate iter_env
  | UpdateDelay real
  | Calibrate

fun do_step :: "step \<Rightarrow> controller \<Rightarrow> controller \<times> effect list" where
  "do_step (Submit rt args) c = (osc_handler c rt args, [])"
| "do_step (Iterate env) c = process_events_step env c"
| "do_step (UpdateDelay a) c = (case update_delay c a of (c1, out) \<Rightarrow> (c1, map Printed out))"
| "do_step Calibrate c =
     (case calibrate_automatically c of
        Inr (c1, out) \<Rightarrow> (c1, map Printed out)
      | Inl e \<Rightarrow> (c, [Printed (CommandError e)]))"

fun run :: "step list \<Rightarrow> controller \<Rightarrow> controller \<times> effect list" where
  "run [] c = (c, [])"
| "run (s # ss) c =
     (case do_step s c of (c1, e1) \<Rightarrow>
        (case run ss c1 of (c2, e2) \<Rightarrow> (c2, e1 @ e2)))"

text \<open>The events actuated by a run, in the order of their actuation.\<close>

fun fired :: "effect list \<Rightarrow> event list" where
  "fired [] = []"
| "fired (Light ev t0 t1 # es) = ev # fired es"
| "fired (e # es) = fired es"

text \<open>The clock readings of the handler invocations of a run, in order.\<close>

fun submit_times :: "step list \<Rightarrow> real list" where
  "submit_times [] = []"
| "submit_times (Submit rt args # ss) = rt # submit_times ss"
| "submit_times (s # ss) = submit_times ss"

text \<open>The durations an environment supplies are not negative.\<close>

definition env_ok :: "iter_env \<Rightarrow> bool" where
  "env_ok env = (0 \<le> get_elapsed env \<and> 0 \<le> sleep_overrun env \<and> 0 \<le> light_elapsed env)"

subsection \<open>Auxiliary notions\<close>

text \<open>The handler's test: the message has an entry \<^verbatim>\<open>'s'\<close> whose value is truthy.\<close>

definition carries_sound :: "osc_value list \<Rightarrow> bool" where
  "carries_sound args =
     (case parse_args args Map.empty (OscStr ''s'') of None \<Rightarrow> False | Some v \<Rightarrow> truthy v)"

text \<open>
  The handler invocations of a run that carry a sound, as pairs of clock reading and
  sound, in the order of the invocations.
\<close>

fun submission :: "step \<Rightarrow> (real \<times> osc_value) list" where
  "submission (Submit rt args) =
     (case parse_args args Map.empty (OscStr ''s'') of
        None \<Rightarrow> []
      | Some v \<Rightarrow> if truthy v then [(rt, v)] else [])"
| "submission s = []"

definition sound_submissions :: "step list \<Rightarrow> (real \<times> osc_value) list" where
  "sound_submissions steps = concat (map submission steps)"

text \<open>Every event of \<open>es\<close> is the submission whose position is the event's number.\<close>

definition numbered :: "(real \<times> osc_value) list \<Rightarrow> event list \<Rightarrow> bool" where
  "numbered subs es =
     list_all (\<lambda>e. event_id e < length subs \<and> subs ! event_id e = (receive_time e, sound e)) es"

text \<open>The numbers of \<open>es\<close> increase strictly and stay below \<open>n\<close>.\<close>

definition id_ordered :: "nat \<Rightarrow> event list \<Rightarrow> bool" where
  "id_ordered n es =
     (sorted_wrt (\<lambda>a b. event_id a < event_id b) es \<and> list_all (\<lambda>e. event_id e < n) es)"

text \<open>The queue was built with the positive bound \<open>m\<close> and respects it.\<close>

definition queue_inv :: "int \<Rightarrow> controller \<Rightarrow> bool" where
  "queue_inv m c =
     (0 < m \<and> maxsize (event_queue c) = m \<and> int (qsize (event_queue c)) \<le> m)"

subsection \<open>Sample inputs\<close>

text \<open>The controller that \<^verbatim>\<open>main()\<close> builds when no option is given.\<close>

definition default_controller :: controller where
  "default_controller = init_controller ''192.168.68.61'' (5 / 100) 100 (25 / 100)"

text \<open>The default controller after twenty measurements of 300 ms each.\<close>

definition measured_controller :: controller where
  "measured_controller =
     default_controller\<lparr>stats := (stats default_controller)
        \<lparr>measured_latencies := replicate 20 (3 / 10), late_count := 20\<rparr>\<rparr>"

text \<open>
  Three messages for a queue of two places, followed by two passes of the dispatcher.
\<close>

definition overflow_run :: "step list" where
  "overflow_run =
     [Submit 1 [OscStr ''s'', OscStr ''bd''],
      Submit 2 [OscStr ''s'', OscStr ''cp''],
      Submit 3 [OscStr ''s'', OscStr ''hh''],
      Iterate \<lparr>loop_top = 3, get_elapsed = 0, sleep_overrun = 0, light_elapsed = 4 / 100\<rparr>,
      Iterate \<lparr>loop_top = 4, get_elapsed = 0, sleep_overrun = 0, light_elapsed = 4 / 100\<rparr>]"

text \<open>
  A pass that reads the clock at 10 s and gets its event half a millisecond later; the
  event was received at 9.9003 s, so with the default delay of 100 ms it is due at
  10.0003 s.
\<close>

definition stale_env :: iter_env where
  "stale_env = \<lparr>loop_top = 10, get_elapsed = 1 / 2000, sleep_overrun = 0,
                 light_elapsed = 8 / 100\<rparr>"

definition stale_run :: "step list" where
  "stale_run = [Submit (99003 / 10000) [OscStr ''s'', OscStr ''bd'']]"

text \<open>A pass 10 ms after an event received at time 0, with an actuation of 80 ms.\<close>

definition pulse_env :: iter_env where
  "pulse_env = \<lparr>loop_top = 1 / 100, get_elapsed = 0, sleep_overrun = 0,
                 light_elapsed = 8 / 100\<rparr>"

definition pulse_run :: "step list" where
  "pulse_run = [Submit 0 [OscStr ''s'', OscStr ''bd'']]"

section \<open>Properties\<close>

subsection \<open>The queue and the handler\<close>

lemma put_nowait_room: "\<not> full q \<Longrightarrow> put_nowait q e = Inr (q\<lparr>items := items q @ [e]\<rparr>)"
  by (simp add: put_nowait_def)

lemma put_nowait_full: "full q \<Longrightarrow> put_nowait q e = Inl Full"
  by (simp add: put_nowait_def)

lemma full_nonempty: "full q \<Longrightarrow> items q \<noteq> []"
  by (auto simp: full_def qsize_def)

lemma tl_not_full:
  assumes "int (qsize q) \<le> maxsize q" and "full q"
  shows "\<not> full (q\<lparr>items := tl (items q)\<rparr>)"
  using assms full_nonempty [OF assms(2)]
  by (cases "items q") (auto simp: full_def qsize_def)

lemma osc_handler_ignored:
  assumes "\<not> carries_sound args"
  shows "osc_handler c rt args = c"
  using assms
  by (auto simp: osc_handler_def carries_sound_def Let_def split: option.splits)

lemma osc_handler_room:
  assumes "parse_args args Map.empty (OscStr ''s'') = Some v" and "truthy v"
    and "\<not> full (event_queue c)"
  shows "osc_handler c rt args =
           c\<lparr>stats := (stats c)\<lparr>total_count := total_count (stats c) + 1\<rparr>,
             event_queue := (event_queue c)\<lparr>items := items (event_queue c) @
                [\<lparr>sound = v, receive_time = rt, event_id = total_count (stats c)\<rparr>]\<rparr>\<rparr>"
  using assms by (simp add: osc_handler_def Let_def put_nowait_room)

lemma osc_handler_full:
  assumes "parse_args args Map.empty (OscStr ''s'') = Some v" and "truthy v"
    and "full (event_queue c)"
  shows "osc_handler c rt args =
           c\<lparr>stats := (stats c)\<lparr>total_count := total_count (stats c) + 1\<rparr>,
             event_queue :=
               (if full ((event_queue c)\<lparr>items := tl (items (event_queue c))\<rparr>)
                then (event_queue c)\<lparr>items := tl (items (event_queue c))\<rparr>
                else (event_queue c)\<lparr>items := tl (items (event_queue c)) @
                        [\<lparr>sound = v, receive_time = rt, event_id = total_count (stats c)\<rparr>]\<rparr>)\<rparr>"
proof -
  from assms(3) obtain e rest where it: "items (event_queue c) = e # rest"
    using full_nonempty by (cases "items (event_queue c)") auto
  show ?thesis
  proof (cases "full ((event_queue c)\<lparr>items := rest\<rparr>)")
    case True
    with assms it show ?thesis
      by (simp add: osc_handler_def Let_def put_nowait_full get_nowait_def)
  next
    case False
    with assms it show ?thesis
      by (simp add: osc_handler_def Let_def put_nowait_full put_nowait_room get_nowait_def)
  qed
qed

text \<open>
  Claim C9. A message whose arguments have no entry \<^verbatim>\<open>'s'\<close>, or whose entry \<^verbatim>\<open>'s'\<close> has an
  empty (falsy) value, leaves the whole controller as it was: no event is queued and the
  counter \<^verbatim>\<open>total\<close> keeps its value.
\<close>

theorem osc_handler_without_sound:
  assumes "parse_args args Map.empty (OscStr ''s'') = None
           \<or> (\<exists>v. parse_args args Map.empty (OscStr ''s'') = Some v \<and> \<not> truthy v)"
  shows "osc_handler c rt args = c
         \<and> items (event_queue (osc_handler c rt args)) = items (event_queue c)
         \<and> total_count (stats (osc_handler c rt args)) = total_count (stats c)"
  using assms by (auto simp: osc_handler_def Let_def)

theorem osc_handler_without_sound_witness:
  "(parse_args [OscStr ''n'', OscInt 3, OscStr ''s'', OscStr []] Map.empty (OscStr ''s'') = None
    \<or> (\<exists>v. parse_args [OscStr ''n'', OscInt 3, OscStr ''s'', OscStr []] Map.empty (OscStr ''s'')
              = Some v \<and> \<not> truthy v))
   \<and> osc_handler default_controller 7 [OscStr ''n'', OscInt 3, OscStr ''s'', OscStr []]
       = default_controller"
  using osc_handler_without_sound
    [of "[OscStr ''n'', OscInt 3, OscStr ''s'', OscStr []]" default_controller 7]
  by simp

subsection \<open>Calibration\<close>

lemma update_delay_state:
  "fst (update_delay c a) =
     c\<lparr>intentional_delay := max (1 / 1000) (min 1 (intentional_delay c + a / 1000))\<rparr>"
  by (simp add: update_delay_def Let_def)

lemma update_delay_bounds:
  "1 / 1000 \<le> intentional_delay (fst (update_delay c a))
   \<and> intentional_delay (fst (update_delay c a)) \<le> 1"
  by (simp add: update_delay_state)

text \<open>
  Claim C8. \<^verbatim>\<open>update_delay\<close> changes the field \<^verbatim>\<open>intentional_delay\<close> and nothing else:
  the statistics (latency window, early and late counters, total), the target latency,
  the overhead terms and the queue are those of the state before the call.
\<close>

theorem update_delay_frame:
  "fst (update_delay c delta_ms) =
     c\<lparr>intentional_delay := intentional_delay (fst (update_delay c delta_ms))\<rparr>
   \<and> stats (fst (update_delay c delta_ms)) = stats c
   \<and> target_latency (fst (update_delay c delta_ms)) = target_latency c
   \<and> system_overhead (fst (update_delay c delta_ms)) = system_overhead c
   \<and> bulb_response_time (fst (update_delay c delta_ms)) = bulb_response_time c
   \<and> event_queue (fst (update_delay c delta_ms)) = event_queue c"
  by (simp add: update_delay_def Let_def)

text \<open>
  Claim C5. With fewer than ten measured latencies \<^verbatim>\<open>calibrate_automatically\<close> returns
  normally, prints the need-more-data line and leaves the controller (delay and
  statistics included) unchanged.
\<close>

theorem calibrate_insufficient_data:
  assumes "length (measured_latencies (stats c)) < 10"
  shows "calibrate_automatically c = Inr (c, [NeedMoreData])"
  using assms by (simp add: calibrate_automatically_def)

theorem calibrate_insufficient_data_witness:
  "length (measured_latencies (stats default_controller)) < 10
   \<and> calibrate_automatically default_controller = Inr (default_controller, [NeedMoreData])"
proof -
  have h: "length (measured_latencies (stats default_controller)) < 10"
    by (simp add: default_controller_def init_controller_def)
  from calibrate_insufficient_data [OF h] h show ?thesis by simp
qed

text \<open>
  Claim C4. With at least ten measured latencies \<^verbatim>\<open>calibrate_automatically\<close> takes the
  error as the mean of the window minus the target latency, hands \<open>- error\<close> (in
  milliseconds) to \<^verbatim>\<open>update_delay\<close>, so that the new delay is the old one minus the error,
  clamped, and then empties the window and zeroes the early and late counters.
\<close>

theorem calibrate_applies_negated_error:
  fixes c :: controller
  defines "window \<equiv> measured_latencies (stats c)"
  defines "err \<equiv> sum_list window / real (length window) - target_latency c"
  assumes "10 \<le> length window"
  shows "\<exists>out. calibrate_automatically c =
           Inr (c\<lparr>intentional_delay := max (1 / 1000) (min 1 (intentional_delay c - err)),
                  stats := (stats c)\<lparr>measured_latencies := [], early_count := 0,
                                      late_count := 0\<rparr>\<rparr>, out)
         \<and> fst (update_delay c (- err * 1000)) =
             c\<lparr>intentional_delay := max (1 / 1000) (min 1 (intentional_delay c - err))\<rparr>"
proof -
  from assms have ne: "measured_latencies (stats c) \<noteq> []" by auto
  from assms have nl: "\<not> length (measured_latencies (stats c)) < 10" by simp
  have m: "mean (measured_latencies (stats c)) = Inr (err + target_latency c)"
    using ne by (simp add: mean_def err_def window_def)
  have u: "fst (update_delay c (- err * 1000)) =
             c\<lparr>intentional_delay := max (1 / 1000) (min 1 (intentional_delay c - err))\<rparr>"
    by (simp add: update_delay_state)
  have "calibrate_automatically c =
          Inr ((fst (update_delay c (- err * 1000)))
                 \<lparr>stats := (stats (fst (update_delay c (- err * 1000))))
                    \<lparr>measured_latencies := [], early_count := 0, late_count := 0\<rparr>\<rparr>,
               AutoCalibration (err + target_latency c) (target_latency c) err (- err * 1000)
                 # snd (update_delay c (- err * 1000)))"
    using nl by (simp add: calibrate_automatically_def m Let_def split_beta)
  then show ?thesis
    unfolding u by simp
qed

theorem calibrate_applies_negated_error_witness:
  "10 \<le> length (measured_latencies (stats measured_controller))
   \<and> (\<exists>out. calibrate_automatically measured_controller =
        Inr (measured_controller\<lparr>intentional_delay := 1 / 20,
               stats := (stats measured_controller)\<lparr>measured_latencies := [],
                          early_count := 0, late_count := 0\<rparr>\<rparr>, out))"
proof -
  have h: "10 \<le> length (measured_latencies (stats measured_controller))"
    by (simp add: measured_controller_def)
  have e: "sum_list (measured_latencies (stats measured_controller))
             / real (length (measured_latencies (stats measured_controller)))
           - target_latency measured_controller = 1 / 20"
    by (simp add: measured_controller_def default_controller_def init_controller_def
        sum_list_replicate)
  have d: "intentional_delay measured_controller = 1 / 10"
    by (simp add: measured_controller_def default_controller_def init_controller_def)
  from calibrate_applies_negated_error [OF h] h show ?thesis
    unfolding e d by simp
qed

text \<open>
  Claim C3. The delay stays within 1 ms and 1 s. \<^verbatim>\<open>update_delay\<close> clamps to both
  bounds, but the constructor applies the lower bound only: with a target latency of
  2 s the initial delay is 1.85 s, above the maximum.
\<close>

theorem init_delay_above_maximum:
  "intentional_delay (init_controller ''192.168.68.61'' (5 / 100) 100 2) = 37 / 20
   \<and> \<not> intentional_delay (init_controller ''192.168.68.61'' (5 / 100) 100 2) \<le> 1"
  by (simp add: init_controller_def)


lemma calibrate_cases:
  assumes "calibrate_automatically c = Inr (c1, out)"
  shows "c1 = c \<or> (\<exists>a. c1 = (fst (update_delay c a))
           \<lparr>stats := (stats c)\<lparr>measured_latencies := [], early_count := 0, late_count := 0\<rparr>\<rparr>)"
proof (cases "length (measured_latencies (stats c)) < 10")
  case True
  with assms show ?thesis by (simp add: calibrate_automatically_def)
next
  case False
  then have "measured_latencies (stats c) \<noteq> []" by auto
  then obtain m where m: "mean (measured_latencies (stats c)) = Inr m"
    by (simp add: mean_def)
  define a where "a = - (m - target_latency c) * 1000"
  have st: "stats (fst (update_delay c a)) = stats c"
    by (simp add: update_delay_state)
  from assms False m have "c1 = (fst (update_delay c a))
      \<lparr>stats := (stats (fst (update_delay c a)))
         \<lparr>measured_latencies := [], early_count := 0, late_count := 0\<rparr>\<rparr>"
    by (simp add: calibrate_automatically_def Let_def split_beta a_def)
  then have "c1 = (fst (update_delay c a))
      \<lparr>stats := (stats c)\<lparr>measured_latencies := [], early_count := 0, late_count := 0\<rparr>\<rparr>"
    by (simp only: st)
  then show ?thesis by blast
qed

lemma calibrate_total:
  "calibrate_automatically c = Inr (c1, out) \<Longrightarrow>
     event_queue c1 = event_queue c \<and> total_count (stats c1) = total_count (stats c)"
  by (auto dest!: calibrate_cases simp: update_delay_state)

lemma calibrate_delay_lower:
  assumes "calibrate_automatically c = Inr (c1, out)" and "1 / 1000 \<le> intentional_delay c"
  shows "1 / 1000 \<le> intentional_delay c1"
proof -
  from calibrate_cases [OF assms(1)] show ?thesis
  proof
    assume "c1 = c" with assms(2) show ?thesis by simp
  next
    assume "\<exists>a. c1 = (fst (update_delay c a))
           \<lparr>stats := (stats c)\<lparr>measured_latencies := [], early_count := 0, late_count := 0\<rparr>\<rparr>"
    then obtain a where "intentional_delay c1 = intentional_delay (fst (update_delay c a))"
      by auto
    with update_delay_bounds [of c a] show ?thesis by simp
  qed
qed

subsection \<open>One pass of the dispatcher\<close>

lemma fired_append: "fired (xs @ ys) = fired xs @ fired ys"
  by (induction xs rule: fired.induct) simp_all

lemma fired_Printed: "fired (map Printed ms) = []"
  by (induction ms) simp_all

lemma process_step_empty:
  "items (event_queue c) = [] \<Longrightarrow> process_events_step env c = (c, [Slept (5 / 1000)])"
  by (simp add: process_events_step_def get_timeout_def get_nowait_def)

lemma process_step_fired:
  "items (event_queue c) = ev # rest \<Longrightarrow> fired (snd (process_events_step env c)) = [ev]"
  by (simp add: process_events_step_def get_timeout_def get_nowait_def Let_def fired_append
      fired_Printed split: sum.splits)

lemma process_step_queue:
  "items (event_queue c) = ev # rest \<Longrightarrow>
     event_queue (fst (process_events_step env c)) = (event_queue c)\<lparr>items := rest\<rparr>"
  by (simp add: process_events_step_def get_timeout_def get_nowait_def Let_def execute_light_def
      split: option.splits)

lemma process_step_delay:
  "intentional_delay (fst (process_events_step env c)) = intentional_delay c"
  by (cases "items (event_queue c)")
     (simp_all add: process_events_step_def get_timeout_def get_nowait_def Let_def
      execute_light_def split: option.splits)

lemma process_step_total:
  "total_count (stats (fst (process_events_step env c))) = total_count (stats c)"
  by (cases "items (event_queue c)")
     (simp_all add: process_events_step_def get_timeout_def get_nowait_def Let_def
      execute_light_def split: option.splits)

lemma process_step_max_queue_size:
  "max_queue_size (fst (process_events_step env c)) = max_queue_size c"
  by (cases "items (event_queue c)")
     (simp_all add: process_events_step_def get_timeout_def get_nowait_def Let_def
      execute_light_def split: option.splits)

lemma wait_time_dequeued:
  "wait_time env (c\<lparr>event_queue := q\<rparr>) ev = wait_time env c ev"
  by (simp add: wait_time_def execute_time_def)

lemma actual_execute_time_dequeued:
  "actual_execute_time env (c\<lparr>event_queue := q\<rparr>) ev = actual_execute_time env c ev"
  by (simp add: actual_execute_time_def wait_time_dequeued)

text \<open>
  What a pass does with the event it dequeues: it sleeps for \<^verbatim>\<open>wait_time\<close> when that is
  positive, then actuates the event in either case.
\<close>

lemma process_step_effects:
  assumes "items (event_queue c) = ev # rest"
  shows "\<exists>rest_effects. snd (process_events_step env c) =
           (if wait_time env c ev > 0 then [Slept (wait_time env c ev)] else []) @
           Light ev (actual_execute_time env c ev)
             (actual_execute_time env c ev + light_elapsed env) # rest_effects"
  using assms
  by (simp add: process_events_step_def get_timeout_def get_nowait_def Let_def
      wait_time_dequeued actual_execute_time_dequeued)

lemma process_step_latencies:
  assumes "items (event_queue c) = ev # rest"
  shows "measured_latencies (stats (fst (process_events_step env c))) =
           deque_append 1000 (measured_latencies (stats c))
             (actual_execute_time env c ev - receive_time ev)"
  using assms
  by (simp add: process_events_step_def get_timeout_def get_nowait_def Let_def execute_light_def
      wait_time_dequeued actual_execute_time_dequeued split: option.splits)

lemma last_deque_append: "last (deque_append 1000 xs x) = x"
  by (simp add: deque_append_def)

lemma actual_latency_nonneg:
  assumes "env_ok env" and "0 \<le> intentional_delay c"
  shows "0 \<le> actual_execute_time env c ev - receive_time ev"
proof (cases "wait_time env c ev > 0")
  case True
  with assms show ?thesis
    by (simp add: actual_execute_time_def wait_time_def execute_time_def env_ok_def)
next
  case False
  then have "receive_time ev + intentional_delay c \<le> loop_top env"
    by (simp add: wait_time_def execute_time_def)
  with assms False show ?thesis
    by (simp add: actual_execute_time_def env_ok_def)
qed

subsection \<open>Invariants of runs\<close>

lemma osc_handler_frame:
  "max_queue_size (osc_handler c rt args) = max_queue_size c
   \<and> intentional_delay (osc_handler c rt args) = intentional_delay c
   \<and> maxsize (event_queue (osc_handler c rt args)) = maxsize (event_queue c)"
proof (cases "carries_sound args")
  case False then show ?thesis by (simp add: osc_handler_ignored)
next
  case True
  then obtain v where v: "parse_args args Map.empty (OscStr ''s'') = Some v" "truthy v"
    by (auto simp: carries_sound_def split: option.splits)
  show ?thesis
    by (cases "full (event_queue c)")
       (simp_all add: osc_handler_full [OF v] osc_handler_room [OF v])
qed

lemma osc_handler_bounded:
  assumes "int (qsize (event_queue c)) \<le> maxsize (event_queue c)"
    and pos: "0 < maxsize (event_queue c)"
  shows "int (qsize (event_queue (osc_handler c rt args))) \<le> maxsize (event_queue c)"
proof (cases "carries_sound args")
  case False with assms show ?thesis by (simp add: osc_handler_ignored)
next
  case True
  then obtain v where v: "parse_args args Map.empty (OscStr ''s'') = Some v" "truthy v"
    by (auto simp: carries_sound_def split: option.splits)
  show ?thesis
  proof (cases "full (event_queue c)")
    case True
    from tl_not_full [OF assms(1) True] True assms full_nonempty [OF True] show ?thesis
      by (cases "items (event_queue c)") (simp_all add: osc_handler_full [OF v True] qsize_def)
  next
    case False
    with assms show ?thesis
      by (auto simp: osc_handler_room [OF v False] qsize_def full_def)
  qed
qed

lemma do_step_queue_inv:
  assumes "queue_inv m c"
  shows "queue_inv m (fst (do_step s c))"
proof (cases s)
  case (Submit rt args)
  with assms osc_handler_bounded [of c rt args] show ?thesis
    by (simp add: queue_inv_def osc_handler_frame)
next
  case (Iterate env)
  show ?thesis
  proof (cases "items (event_queue c)")
    case Nil
    with assms Iterate show ?thesis by (simp add: process_step_empty)
  next
    case (Cons ev rest)
    with assms Iterate show ?thesis
      by (simp add: queue_inv_def process_step_queue [OF Cons] qsize_def)
  qed
next
  case (UpdateDelay a)
  with assms show ?thesis
    by (simp add: queue_inv_def split_beta update_delay_state)
next
  case Calibrate
  with assms show ?thesis
    by (auto simp: queue_inv_def dest: calibrate_total split: sum.splits)
qed

lemma run_queue_inv:
  "queue_inv m c \<Longrightarrow> queue_inv m (fst (run steps c))"
proof (induction steps arbitrary: c)
  case Nil then show ?case by simp
next
  case (Cons s steps)
  from Cons.IH [OF do_step_queue_inv [OF Cons.prems, of s]] show ?case
    by (simp add: split_beta)
qed

lemma init_queue_inv: "0 < m \<Longrightarrow> queue_inv m (init_controller ip pd m tgt)"
  by (simp add: queue_inv_def init_controller_def Queue_def qsize_def)

lemma do_step_max_queue_size: "max_queue_size (fst (do_step s c)) = max_queue_size c"
proof (cases s)
  case (Submit rt args) then show ?thesis by (simp add: osc_handler_frame)
next
  case (Iterate env) then show ?thesis by (simp add: process_step_max_queue_size)
next
  case (UpdateDelay a) then show ?thesis by (simp add: split_beta update_delay_state)
next
  case Calibrate then show ?thesis
    by (auto dest!: calibrate_cases simp: update_delay_state split: sum.splits)
qed

lemma run_max_queue_size: "max_queue_size (fst (run steps c)) = max_queue_size c"
  by (induction steps arbitrary: c) (simp_all add: split_beta do_step_max_queue_size)

lemma do_step_delay_lower:
  assumes "1 / 1000 \<le> intentional_delay c"
  shows "1 / 1000 \<le> intentional_delay (fst (do_step s c))"
proof (cases s)
  case (Submit rt args) with assms show ?thesis by (simp add: osc_handler_frame)
next
  case (Iterate env) with assms show ?thesis by (simp add: process_step_delay)
next
  case (UpdateDelay a)
  with update_delay_bounds [of c a] show ?thesis by (simp add: split_beta)
next
  case Calibrate
  with assms show ?thesis
    by (auto dest: calibrate_delay_lower split: sum.splits)
qed

lemma run_delay_lower:
  "1 / 1000 \<le> intentional_delay c \<Longrightarrow> 1 / 1000 \<le> intentional_delay (fst (run steps c))"
proof (induction steps arbitrary: c)
  case Nil then show ?case by simp
next
  case (Cons s steps)
  from Cons.IH [OF do_step_delay_lower [OF Cons.prems, of s]] show ?case
    by (simp add: split_beta)
qed

lemma init_delay_lower: "1 / 1000 \<le> intentional_delay (init_controller ip pd m tgt)"
  by (simp add: init_controller_def)

text \<open>
  Once the delay is within 1 ms and 1 s it stays there: no step of a run leads out of the
  bounds.
\<close>

lemma do_step_delay_upper:
  assumes "intentional_delay c \<le> 1"
  shows "intentional_delay (fst (do_step s c)) \<le> 1"
proof (cases s)
  case (Submit rt args) with assms show ?thesis by (simp add: osc_handler_frame)
next
  case (Iterate env) with assms show ?thesis by (simp add: process_step_delay)
next
  case (UpdateDelay a)
  with update_delay_bounds [of c a] show ?thesis by (simp add: split_beta)
next
  case Calibrate
  show ?thesis
  proof (cases "calibrate_automatically c")
    case (Inl e) with Calibrate assms show ?thesis by simp
  next
    case (Inr r)
    obtain c1 out where r: "r = (c1, out)" by (cases r)
    from calibrate_cases [OF Inr [unfolded r]] have "intentional_delay c1 \<le> 1"
    proof
      assume "c1 = c" with assms show ?thesis by simp
    next
      assume "\<exists>a. c1 = (fst (update_delay c a))
           \<lparr>stats := (stats c)\<lparr>measured_latencies := [], early_count := 0, late_count := 0\<rparr>\<rparr>"
      then obtain a where "intentional_delay c1 = intentional_delay (fst (update_delay c a))"
        by auto
      with update_delay_bounds [of c a] show ?thesis by simp
    qed
    with Calibrate Inr r show ?thesis by simp
  qed
qed

lemma run_delay_bounds:
  assumes "1 / 1000 \<le> intentional_delay c" and "intentional_delay c \<le> 1"
  shows "1 / 1000 \<le> intentional_delay (fst (run steps c))
         \<and> intentional_delay (fst (run steps c)) \<le> 1"
  using assms
proof (induction steps arbitrary: c)
  case Nil then show ?case by simp
next
  case (Cons s steps)
  from Cons.IH [OF do_step_delay_lower [OF Cons.prems(1), of s]
      do_step_delay_upper [OF Cons.prems(2), of s]]
  show ?case by (simp add: split_beta)
qed

text \<open>The actuated events followed by the queued ones, and the counter, after a step.\<close>

lemma do_step_fired_queue:
  "fired (snd (do_step s c)) @ items (event_queue (fst (do_step s c))) =
     (case s of Submit rt args \<Rightarrow> items (event_queue (osc_handler c rt args))
              | _ \<Rightarrow> items (event_queue c))"
proof (cases s)
  case (Submit rt args) then show ?thesis by simp
next
  case (Iterate env)
  then show ?thesis
    by (cases "items (event_queue c)")
       (simp_all add: process_step_empty process_step_fired process_step_queue)
next
  case (UpdateDelay a)
  then show ?thesis by (simp add: split_beta update_delay_state fired_Printed)
next
  case Calibrate
  then show ?thesis
    by (auto simp: fired_Printed dest: calibrate_total split: sum.splits)
qed

lemma do_step_total:
  "total_count (stats (fst (do_step s c))) =
     (case s of Submit rt args \<Rightarrow> total_count (stats (osc_handler c rt args))
              | _ \<Rightarrow> total_count (stats c))"
proof (cases s)
  case (Submit rt args) then show ?thesis by simp
next
  case (Iterate env) then show ?thesis by (simp add: process_step_total)
next
  case (UpdateDelay a) then show ?thesis by (simp add: split_beta update_delay_state)
next
  case Calibrate then show ?thesis by (auto dest: calibrate_total split: sum.splits)
qed

subsection \<open>The order of actuation\<close>

lemma id_ordered_snoc:
  "id_ordered n es \<Longrightarrow>
     id_ordered (Suc n) (es @ [\<lparr>sound = v, receive_time = rt, event_id = n\<rparr>])"
  by (auto simp: id_ordered_def sorted_wrt_append list_all_iff less_Suc_eq)

lemma id_ordered_mono: "id_ordered n es \<Longrightarrow> id_ordered (Suc n) es"
  by (auto simp: id_ordered_def list_all_iff less_Suc_eq)

lemma id_ordered_drop_mid: "id_ordered n (ds @ e # rest) \<Longrightarrow> id_ordered n (ds @ rest)"
  by (auto simp: id_ordered_def sorted_wrt_append)

lemma osc_handler_id_ordered:
  assumes "id_ordered (total_count (stats c)) (ds @ items (event_queue c))"
  shows "id_ordered (total_count (stats (osc_handler c rt args)))
           (ds @ items (event_queue (osc_handler c rt args)))"
proof (cases "carries_sound args")
  case False with assms show ?thesis by (simp add: osc_handler_ignored)
next
  case True
  then obtain v where v: "parse_args args Map.empty (OscStr ''s'') = Some v" "truthy v"
    by (auto simp: carries_sound_def split: option.splits)
  show ?thesis
  proof (cases "full (event_queue c)")
    case False
    from id_ordered_snoc [OF assms, of v rt] show ?thesis
      by (simp add: osc_handler_room [OF v False])
  next
    case True
    then obtain e rest where it: "items (event_queue c) = e # rest"
      using full_nonempty by (cases "items (event_queue c)") auto
    from assms it have dr: "id_ordered (total_count (stats c)) (ds @ rest)"
      by (simp add: id_ordered_drop_mid)
    from id_ordered_snoc [OF dr, of v rt] id_ordered_mono [OF dr] show ?thesis
      by (simp add: osc_handler_full [OF v True] it)
  qed
qed

lemma do_step_id_ordered:
  assumes "id_ordered (total_count (stats c)) (ds @ items (event_queue c))"
  shows "id_ordered (total_count (stats (fst (do_step s c))))
           ((ds @ fired (snd (do_step s c))) @ items (event_queue (fst (do_step s c))))"
proof -
  have "id_ordered (total_count (stats (fst (do_step s c))))
           (ds @ (fired (snd (do_step s c)) @ items (event_queue (fst (do_step s c)))))"
    unfolding do_step_fired_queue do_step_total
    using assms osc_handler_id_ordered [OF assms] by (cases s) simp_all
  then show ?thesis by simp
qed

lemma run_id_ordered:
  assumes "id_ordered (total_count (stats c)) (ds @ items (event_queue c))"
  shows "id_ordered (total_count (stats (fst (run steps c))))
           (ds @ fired (snd (run steps c)) @ items (event_queue (fst (run steps c))))"
  using assms
proof (induction steps arbitrary: c ds)
  case Nil then show ?case by simp
next
  case (Cons s steps)
  from Cons.IH [OF do_step_id_ordered [OF Cons.prems, of s]] show ?case
    by (simp add: split_beta fired_append)
qed

lemma osc_handler_time_ordered:
  assumes "sorted (map receive_time (ds @ items (event_queue c)) @ rt # later)"
  shows "sorted (map receive_time (ds @ items (event_queue (osc_handler c rt args))) @ later)"
proof (cases "carries_sound args")
  case False with assms show ?thesis
    by (auto simp: osc_handler_ignored sorted_append)
next
  case True
  then obtain v where v: "parse_args args Map.empty (OscStr ''s'') = Some v" "truthy v"
    by (auto simp: carries_sound_def split: option.splits)
  show ?thesis
  proof (cases "full (event_queue c)")
    case False
    from assms show ?thesis
      by (simp add: osc_handler_room [OF v False])
  next
    case True
    then obtain e rest where it: "items (event_queue c) = e # rest"
      using full_nonempty by (cases "items (event_queue c)") auto
    from assms it show ?thesis
      by (auto simp: osc_handler_full [OF v True] sorted_append)
  qed
qed

lemma do_step_time_ordered:
  assumes "sorted (map receive_time (ds @ items (event_queue c)) @ submit_times (s # rest))"
  shows "sorted (map receive_time ((ds @ fired (snd (do_step s c))) @
            items (event_queue (fst (do_step s c)))) @ submit_times rest)"
proof -
  have "sorted (map receive_time (ds @ (fired (snd (do_step s c)) @
            items (event_queue (fst (do_step s c))))) @ submit_times rest)"
    unfolding do_step_fired_queue
    using assms osc_handler_time_ordered [of ds c _ "submit_times rest"]
    by (cases s) simp_all
  then show ?thesis by simp
qed

lemma run_time_ordered:
  assumes "sorted (map receive_time (ds @ items (event_queue c)) @ submit_times steps)"
  shows "sorted (map receive_time
           (ds @ fired (snd (run steps c)) @ items (event_queue (fst (run steps c)))))"
  using assms
proof (induction steps arbitrary: c ds)
  case Nil then show ?case by simp
next
  case (Cons s steps)
  from Cons.IH [OF do_step_time_ordered [OF Cons.prems]] show ?case
    by (simp add: split_beta fired_append)
qed

lemma numbered_extend: "numbered subs es \<Longrightarrow> numbered (subs @ ext) es"
  by (auto simp: numbered_def list_all_iff nth_append)

lemma numbered_snoc:
  "numbered subs es \<Longrightarrow>
     numbered (subs @ [(rt, v)])
       (es @ [\<lparr>sound = v, receive_time = rt, event_id = length subs\<rparr>])"
  by (auto simp: numbered_def list_all_iff nth_append)

lemma numbered_drop_mid: "numbered subs (ds @ e # rest) \<Longrightarrow> numbered subs (ds @ rest)"
  by (simp add: numbered_def)

lemma osc_handler_numbered:
  assumes "total_count (stats c) = length subs"
    and "numbered subs (ds @ items (event_queue c))"
  shows "total_count (stats (osc_handler c rt args)) = length (subs @ submission (Submit rt args))
         \<and> numbered (subs @ submission (Submit rt args))
              (ds @ items (event_queue (osc_handler c rt args)))"
proof (cases "carries_sound args")
  case False
  then have "submission (Submit rt args) = []"
    by (auto simp: carries_sound_def split: option.splits)
  with assms False show ?thesis by (simp add: osc_handler_ignored)
next
  case True
  then obtain v where v: "parse_args args Map.empty (OscStr ''s'') = Some v" "truthy v"
    by (auto simp: carries_sound_def split: option.splits)
  then have sub: "submission (Submit rt args) = [(rt, v)]" by simp
  show ?thesis
  proof (cases "full (event_queue c)")
    case False
    from numbered_snoc [OF assms(2), of rt v] assms(1) show ?thesis
      unfolding sub by (simp add: osc_handler_room [OF v False])
  next
    case True
    then obtain e rest where it: "items (event_queue c) = e # rest"
      using full_nonempty by (cases "items (event_queue c)") auto
    from assms(2) it have dr: "numbered subs (ds @ rest)"
      by (simp add: numbered_drop_mid)
    from numbered_snoc [OF dr, of rt v] numbered_extend [OF dr, of "[(rt, v)]"] assms(1)
    show ?thesis
      unfolding sub by (simp add: osc_handler_full [OF v True] it)
  qed
qed

lemma do_step_numbered:
  assumes "total_count (stats c) = length subs"
    and "numbered subs (ds @ items (event_queue c))"
  shows "total_count (stats (fst (do_step s c))) = length (subs @ submission s)
         \<and> numbered (subs @ submission s)
              ((ds @ fired (snd (do_step s c))) @ items (event_queue (fst (do_step s c))))"
proof -
  have "total_count (stats (fst (do_step s c))) = length (subs @ submission s)
         \<and> numbered (subs @ submission s)
              (ds @ (fired (snd (do_step s c)) @ items (event_queue (fst (do_step s c)))))"
    unfolding do_step_fired_queue do_step_total
    using assms osc_handler_numbered [OF assms] by (cases s) simp_all
  then show ?thesis by simp
qed

lemma run_numbered:
  assumes "total_count (stats c) = length subs"
    and "numbered subs (ds @ items (event_queue c))"
  shows "total_count (stats (fst (run steps c))) = length (subs @ sound_submissions steps)
         \<and> numbered (subs @ sound_submissions steps)
              (ds @ fired (snd (run steps c)) @ items (event_queue (fst (run steps c))))"
  using assms
proof (induction steps arbitrary: c ds subs)
  case Nil then show ?case by (simp add: sound_submissions_def)
next
  case (Cons s steps)
  from do_step_numbered [OF Cons.prems, of s]
  have "total_count (stats (fst (do_step s c))) = length (subs @ submission s)"
    and "numbered (subs @ submission s)
              ((ds @ fired (snd (do_step s c))) @ items (event_queue (fst (do_step s c))))"
    by simp_all
  from Cons.IH [OF this] show ?case
    by (simp add: split_beta fired_append sound_submissions_def)
qed

lemma init_empty:
  "items (event_queue (init_controller ip pd m tgt)) = []"
  "total_count (stats (init_controller ip pd m tgt)) = 0"
  by (simp_all add: init_controller_def Queue_def)

lemma run_init_total:
  "total_count (stats (fst (run steps (init_controller ip pd m tgt))))
     = length (sound_submissions steps)"
  using run_numbered [of "init_controller ip pd m tgt" "[]" "[]" steps]
  by (simp add: init_empty numbered_def)

lemmas eval_defs = init_controller_def Queue_def osc_handler_def put_nowait_def get_nowait_def
  get_timeout_def full_def qsize_def Let_def process_events_step_def execute_light_def
  deque_append_def print_stats_def mean_def wait_time_def execute_time_def
  actual_execute_time_def

text \<open>
  Claim C7. The events of a run are actuated in the order in which their messages came
  in: along the list of actuated events the numbers increase strictly and the receive
  times never decrease (the handlers' clock readings being monotone), and each number is
  the position of the event's message among the sound-carrying messages of the run.
\<close>

theorem dispatch_in_push_order:
  assumes "sorted (submit_times steps)"
  shows "sorted_wrt (\<lambda>a b. event_id a < event_id b \<and> receive_time a \<le> receive_time b)
           (fired (snd (run steps (init_controller ip pd m tgt))))
         \<and> numbered (sound_submissions steps)
             (fired (snd (run steps (init_controller ip pd m tgt))))"
proof -
  let ?c = "init_controller ip pd m tgt"
  have "id_ordered (total_count (stats ?c)) ([] @ items (event_queue ?c))"
    by (simp add: init_empty id_ordered_def)
  from run_id_ordered [OF this, of steps]
  have a: "sorted_wrt (\<lambda>a b. event_id a < event_id b) (fired (snd (run steps ?c)))"
    by (simp add: id_ordered_def sorted_wrt_append)
  have "sorted (map receive_time ([] @ items (event_queue ?c)) @ submit_times steps)"
    using assms by (simp add: init_empty)
  from run_time_ordered [OF this]
  have b: "sorted_wrt (\<lambda>a b. receive_time a \<le> receive_time b) (fired (snd (run steps ?c)))"
    by (simp add: sorted_append sorted_map)
  from run_numbered [of ?c "[]" "[]" steps]
  have n: "numbered (sound_submissions steps) (fired (snd (run steps ?c)))"
    by (simp add: init_empty numbered_def)
  from a b n show ?thesis
    by (simp add: sorted_wrt_iff_nth_less)
qed

theorem dispatch_in_push_order_witness:
  "sorted (submit_times overflow_run)
   \<and> map event_id (fired (snd (run overflow_run
          (init_controller ''192.168.68.61'' (5 / 100) 2 (25 / 100))))) = [1, 2]
   \<and> sorted_wrt (\<lambda>a b. event_id a < event_id b \<and> receive_time a \<le> receive_time b)
       (fired (snd (run overflow_run
          (init_controller ''192.168.68.61'' (5 / 100) 2 (25 / 100)))))"
proof -
  have h: "sorted (submit_times overflow_run)"
    by (simp add: overflow_run_def)
  have e: "map event_id (fired (snd (run overflow_run
          (init_controller ''192.168.68.61'' (5 / 100) 2 (25 / 100))))) = [1, 2]"
    by (simp add: overflow_run_def eval_defs)
  from dispatch_in_push_order [OF h, of "''192.168.68.61''" "5 / 100" 2 "25 / 100"] h e
  show ?thesis by simp
qed

text \<open>
  Claim C2, as the code has it. A controller built with a positive \<^verbatim>\<open>max_queue_size\<close>
  never holds more events than that, whatever steps are run; and when a sound-carrying
  message arrives while the queue is full, the queue afterwards is the old one without
  its head and with the new event at the end.
\<close>

theorem queue_bounded_drop_oldest:
  fixes steps :: "step list" and ip :: string and pd :: real and m :: int and tgt :: real
  defines "c \<equiv> fst (run steps (init_controller ip pd m tgt))"
  assumes "0 < m"
  shows "max_queue_size c = m \<and> int (qsize (event_queue c)) \<le> m
         \<and> (full (event_queue c) \<and> parse_args args Map.empty (OscStr ''s'') = Some v
              \<and> truthy v
              \<longrightarrow> items (event_queue (osc_handler c rt args)) =
                    tl (items (event_queue c)) @
                      [\<lparr>sound = v, receive_time = rt, event_id = total_count (stats c)\<rparr>])"
proof -
  have inv: "queue_inv m c"
    unfolding c_def by (rule run_queue_inv) (rule init_queue_inv [OF assms(2)])
  have mq: "max_queue_size c = m"
    unfolding c_def by (simp add: run_max_queue_size init_controller_def)
  have ev: "items (event_queue (osc_handler c rt args)) =
              tl (items (event_queue c)) @
                [\<lparr>sound = v, receive_time = rt, event_id = total_count (stats c)\<rparr>]"
    if f: "full (event_queue c)"
      and v: "parse_args args Map.empty (OscStr ''s'') = Some v" "truthy v"
  proof -
    from inv have "int (qsize (event_queue c)) \<le> maxsize (event_queue c)"
      by (simp add: queue_inv_def)
    from tl_not_full [OF this f] show ?thesis
      by (simp add: osc_handler_full [OF v f])
  qed
  from inv mq ev show ?thesis by (simp add: queue_inv_def)
qed

theorem queue_bounded_drop_oldest_witness:
  "(0::int) < 2
   \<and> full (event_queue (fst (run (take 2 overflow_run)
        (init_controller ''192.168.68.61'' (5 / 100) 2 (25 / 100)))))
   \<and> parse_args [OscStr ''s'', OscStr ''hh''] Map.empty (OscStr ''s'') = Some (OscStr ''hh'')
   \<and> truthy (OscStr ''hh'')
   \<and> map event_id (items (event_queue (fst (run (take 2 overflow_run)
        (init_controller ''192.168.68.61'' (5 / 100) 2 (25 / 100)))))) = [0, 1]
   \<and> map event_id (items (event_queue (osc_handler (fst (run (take 2 overflow_run)
        (init_controller ''192.168.68.61'' (5 / 100) 2 (25 / 100)))) 3
        [OscStr ''s'', OscStr ''hh'']))) = [1, 2]"
proof -
  let ?c = "fst (run (take 2 overflow_run)
        (init_controller ''192.168.68.61'' (5 / 100) 2 (25 / 100)))"
  have c: "?c = (init_controller ''192.168.68.61'' (5 / 100) 2 (25 / 100))
     \<lparr>event_queue := \<lparr>maxsize = 2, items =
         [\<lparr>sound = OscStr ''bd'', receive_time = 1, event_id = 0\<rparr>,
          \<lparr>sound = OscStr ''cp'', receive_time = 2, event_id = 1\<rparr>]\<rparr>,
       stats := \<lparr>total_count = 2, measured_latencies = [], queue_sizes = [],
                  early_count = 0, late_count = 0\<rparr>\<rparr>"
    by (simp add: overflow_run_def eval_defs)
  have f: "full (event_queue ?c)"
    unfolding c by (simp add: full_def qsize_def)
  have p: "parse_args [OscStr ''s'', OscStr ''hh''] Map.empty (OscStr ''s'') = Some (OscStr ''hh'')"
    by simp
  have t: "truthy (OscStr ''hh'')" by simp
  have i: "map event_id (items (event_queue ?c)) = [0, 1]"
    unfolding c by simp
  from queue_bounded_drop_oldest
    [of 2 "take 2 overflow_run" "''192.168.68.61''" "5 / 100" "25 / 100"
        "[OscStr ''s'', OscStr ''hh'']" "OscStr ''hh''" 3] f p t
  have "items (event_queue (osc_handler ?c 3 [OscStr ''s'', OscStr ''hh''])) =
          tl (items (event_queue ?c)) @
            [\<lparr>sound = OscStr ''hh'', receive_time = 3, event_id = total_count (stats ?c)\<rparr>]"
    by simp
  then have "map event_id (items (event_queue (osc_handler ?c 3 [OscStr ''s'', OscStr ''hh'']))) = [1, 2]"
    unfolding c by simp
  with f p t i show ?thesis by simp
qed

theorem queue_unbounded_counterexample:
  "\<not> int (qsize (event_queue (fst (run [Submit 1 [OscStr ''s'', OscStr ''bd'']]
           (init_controller ''192.168.68.61'' (5 / 100) 0 (25 / 100))))))
       \<le> max_queue_size (fst (run [Submit 1 [OscStr ''s'', OscStr ''bd'']]
           (init_controller ''192.168.68.61'' (5 / 100) 0 (25 / 100))))"
  by (simp add: eval_defs)


subsection \<open>The counter of submissions\<close>

lemma osc_handler_total:
  assumes "parse_args args Map.empty (OscStr ''s'') = Some v" and "truthy v"
  shows "total_count (stats (osc_handler c rt args)) = total_count (stats c) + 1"
  by (cases "full (event_queue c)")
     (simp_all add: osc_handler_full [OF assms] osc_handler_room [OF assms])

lemma print_stats_percentages:
  assumes "measured_latencies (stats c) \<noteq> []"
  shows "\<exists>l. print_stats c = Inr [Stats l]
           \<and> early_pct l = real (early_count (stats c)) / real (max 1 (total_count (stats c))) * 100
           \<and> late_pct l = real (late_count (stats c)) / real (max 1 (total_count (stats c))) * 100"
  using assms
  by (cases "measured_latencies (stats c)")
     (auto simp: print_stats_def Let_def mean_def stdev_def)

text \<open>
  Claim C10. A message that carries a sound raises the counter \<^verbatim>\<open>total\<close> by exactly one,
  whether the queue has room or an event is evicted; a pass of the dispatcher leaves the
  counter alone; so after any run from the constructor's state the counter is the number
  of sound-carrying messages, and \<^verbatim>\<open>print_stats\<close> divides the early and late counts by
  this number (by 1 when it is 0).
\<close>

theorem total_counts_submissions:
  assumes "parse_args args Map.empty (OscStr ''s'') = Some v" and "truthy v"
  shows "total_count (stats (osc_handler c rt args)) = total_count (stats c) + 1
         \<and> total_count (stats (fst (process_events_step env c))) = total_count (stats c)
         \<and> total_count (stats (fst (run steps (init_controller ip pd m tgt))))
             = length (sound_submissions steps)
         \<and> (measured_latencies (stats c) \<noteq> [] \<longrightarrow>
              (\<exists>l. print_stats c = Inr [Stats l]
                 \<and> early_pct l
                     = real (early_count (stats c)) / real (max 1 (total_count (stats c))) * 100
                 \<and> late_pct l
                     = real (late_count (stats c)) / real (max 1 (total_count (stats c))) * 100))"
  using osc_handler_total [OF assms] process_step_total run_init_total print_stats_percentages
  by blast

theorem total_counts_submissions_witness:
  "parse_args [OscStr ''s'', OscStr ''sn''] Map.empty (OscStr ''s'') = Some (OscStr ''sn'')
   \<and> truthy (OscStr ''sn'')
   \<and> total_count (stats (fst (run overflow_run
         (init_controller ''192.168.68.61'' (5 / 100) 2 (25 / 100))))) = 3
   \<and> length (fired (snd (run overflow_run
         (init_controller ''192.168.68.61'' (5 / 100) 2 (25 / 100))))) = 2
   \<and> total_count (stats (osc_handler (fst (run overflow_run
         (init_controller ''192.168.68.61'' (5 / 100) 2 (25 / 100)))) 5
         [OscStr ''s'', OscStr ''sn''])) = 4
   \<and> measured_latencies (stats (fst (run overflow_run
         (init_controller ''192.168.68.61'' (5 / 100) 2 (25 / 100))))) \<noteq> []
   \<and> (\<exists>l. print_stats (fst (run overflow_run
         (init_controller ''192.168.68.61'' (5 / 100) 2 (25 / 100)))) = Inr [Stats l]
         \<and> late_pct l = 200 / 3)"
proof -
  let ?c = "fst (run overflow_run (init_controller ''192.168.68.61'' (5 / 100) 2 (25 / 100)))"
  have p: "parse_args [OscStr ''s'', OscStr ''sn''] Map.empty (OscStr ''s'') = Some (OscStr ''sn'')"
    by simp
  have t: "truthy (OscStr ''sn'')" by simp
  have s: "stats ?c = \<lparr>total_count = 3, measured_latencies = [1, 1], queue_sizes = [],
                         early_count = 0, late_count = 2\<rparr>"
    by (simp add: overflow_run_def eval_defs)
  have f: "length (fired (snd (run overflow_run
         (init_controller ''192.168.68.61'' (5 / 100) 2 (25 / 100))))) = 2"
    by (simp add: overflow_run_def eval_defs)
  have n: "length (sound_submissions overflow_run) = 3"
    by (simp add: overflow_run_def sound_submissions_def)
  from total_counts_submissions [OF p t, of ?c 5 pulse_env overflow_run "''192.168.68.61''" "5 / 100" 2
      "25 / 100"]
  show ?thesis
    unfolding s n using p t f by auto
qed


subsection \<open>Timing of a pass\<close>

text \<open>
  Claim C6, as the code has it. For the event a pass dequeues, the latency appended to
  the window is \<^verbatim>\<open>actual_execute_time - receive_time\<close>, where \<^verbatim>\<open>actual_execute_time\<close> is the
  clock reading taken after the wait and before \<^verbatim>\<open>execute_light\<close> is entered (the
  actuation ends \<open>light_elapsed\<close> later); in every state a run reaches from the
  constructor's state, and with durations that are not negative, this latency is not
  negative.
\<close>

theorem measured_latency_from_actuation_start:
  fixes steps :: "step list" and ip :: string and pd :: real and m :: int and tgt :: real
  defines "c \<equiv> fst (run steps (init_controller ip pd m tgt))"
  assumes "items (event_queue c) = ev # rest" and "env_ok env"
  shows "(\<exists>rest_effects. snd (process_events_step env c) =
            (if wait_time env c ev > 0 then [Slept (wait_time env c ev)] else []) @
            Light ev (actual_execute_time env c ev)
              (actual_execute_time env c ev + light_elapsed env) # rest_effects)
         \<and> last (measured_latencies (stats (fst (process_events_step env c))))
             = actual_execute_time env c ev - receive_time ev
         \<and> 0 \<le> actual_execute_time env c ev - receive_time ev"
proof -
  have "1 / 1000 \<le> intentional_delay c"
    unfolding c_def by (rule run_delay_lower) (rule init_delay_lower)
  then have d: "0 \<le> intentional_delay c" by simp
  from process_step_effects [OF assms(2), of env]
    process_step_latencies [OF assms(2), of env]
    actual_latency_nonneg [OF assms(3) d, of ev]
  show ?thesis by (simp add: last_deque_append)
qed

theorem measured_latency_from_actuation_start_witness:
  "items (event_queue (fst (run pulse_run
       (init_controller ''192.168.68.61'' (5 / 100) 100 (25 / 100)))))
     = [\<lparr>sound = OscStr ''bd'', receive_time = 0, event_id = 0\<rparr>]
   \<and> env_ok pulse_env
   \<and> last (measured_latencies (stats (fst (process_events_step pulse_env (fst (run pulse_run
       (init_controller ''192.168.68.61'' (5 / 100) 100 (25 / 100)))))))) = 1 / 10
   \<and> (0::real) \<le> 1 / 10"
proof -
  let ?c = "fst (run pulse_run (init_controller ''192.168.68.61'' (5 / 100) 100 (25 / 100)))"
  let ?ev = "\<lparr>sound = OscStr ''bd'', receive_time = 0, event_id = 0\<rparr>"
  have i: "items (event_queue ?c) = ?ev # []"
    by (simp add: pulse_run_def eval_defs)
  have e: "env_ok pulse_env"
    by (simp add: env_ok_def pulse_env_def)
  have a: "actual_execute_time pulse_env ?c ?ev = 1 / 10"
    by (simp add: pulse_run_def pulse_env_def eval_defs)
  from measured_latency_from_actuation_start [OF i e] i e show ?thesis
    unfolding a by simp
qed

theorem latency_excludes_actuation_counterexample:
  "snd (process_events_step pulse_env (fst (run pulse_run default_controller)))
     = [Slept (9 / 100),
        Light \<lparr>sound = OscStr ''bd'', receive_time = 0, event_id = 0\<rparr> (1 / 10) (9 / 50),
        Printed (LatencyError (- (3 / 20)) (1 / 10))]
   \<and> measured_latencies (stats (fst (process_events_step pulse_env
        (fst (run pulse_run default_controller))))) = [1 / 10]
   \<and> last (measured_latencies (stats (fst (process_events_step pulse_env
        (fst (run pulse_run default_controller))))))
       \<noteq> 9 / 50 - receive_time \<lparr>sound = OscStr ''bd'', receive_time = 0, event_id = 0\<rparr>"
  by (simp add: pulse_run_def pulse_env_def default_controller_def eval_defs)

text \<open>
  Claim C1. The wait is taken against \<^verbatim>\<open>current_time\<close>, read at the top of the pass,
  before the queue's \<^verbatim>\<open>get\<close>, not against the time at which the event was got. With the
  clock read at 10 s, the event got at 10.0005 s and due at 10.0003 s, the wait at the
  time of the get is negative, yet the pass sleeps 0.3 ms and actuates at 10.0008 s.
\<close>

theorem wait_uses_stale_clock:
  "items (event_queue (fst (run stale_run default_controller)))
     = [\<lparr>sound = OscStr ''bd'', receive_time = 99003 / 10000, event_id = 0\<rparr>]
   \<and> execute_time (fst (run stale_run default_controller))
        \<lparr>sound = OscStr ''bd'', receive_time = 99003 / 10000, event_id = 0\<rparr>
      - (loop_top stale_env + get_elapsed stale_env) = - (1 / 5000)
   \<and> snd (process_events_step stale_env (fst (run stale_run default_controller)))
     = [Slept (3 / 10000),
        Light \<lparr>sound = OscStr ''bd'', receive_time = 99003 / 10000, event_id = 0\<rparr>
          (100008 / 10000) (100808 / 10000),
        Printed (LatencyError (- (299 / 2000)) (201 / 2000))]"
  by (simp add: stale_run_def stale_env_def default_controller_def eval_defs)

end
